theory Spec2Isabelle
  imports Main
begin

section \<open>The LRU cache of eviction.go\<close>

text \<open>
  The Go program keeps a \<^verbatim>\<open>map[string]*list.Element\<close> (the index) beside a
  \<^verbatim>\<open>container/list\<close> doubly-linked list (the recency order, front = most recently
  used). Every list element carries a pointer to a \<^verbatim>\<open>cacheItem\<close>.

  The model keeps the pointers: an element is an address, the list is the sequence of the
  addresses linked between the front and the back, and a store maps every allocated element
  to the \<^verbatim>\<open>cacheItem\<close> its \<^verbatim>\<open>Value\<close> points to. The index maps keys to addresses,
  as the Go map does. A Go \<^verbatim>\<open>interface{}\<close> value is an option: \<open>None\<close> is the
  \<^verbatim>\<open>nil\<close> interface. A run-time panic (the type assertion
  \<^verbatim>\<open>e.Value.(*cacheItem)\<close> on an element that holds no item) is the result \<open>None\<close> of an
  operation. The mutex is not modelled: every operation holds it from its first to its last
  statement, so the operations are the atomic steps of the model.

  The counters are Go \<^verbatim>\<open>int\<close>s. They are modelled as unbounded integers;
  \<open>size_bounds\<close> below shows that \<^verbatim>\<open>curr_size\<close> stays between 0 and
  \<open>max 1 max_size\<close>, so no increment or decrement of the program can wrap.
\<close>

type_synonym addr = nat

type_synonym 'v iface = "'v option"

record 'v cacheItem =
  key :: string
  val :: "'v iface"

record 'v Cache =
  max_size :: int
  curr_size :: int
  cache :: "string \<rightharpoonup> addr"
  lru :: "addr list"
  elems :: "addr \<rightharpoonup> 'v cacheItem"
  fresh :: addr

subsection \<open>The operations of container/list that the cache uses\<close>

text \<open>
  \<^verbatim>\<open>Back\<close> returns nil on an empty list. \<^verbatim>\<open>MoveToFront\<close> and \<^verbatim>\<open>Remove\<close> do
  nothing when the element does not belong to the list (\<^verbatim>\<open>e.list != l\<close>), and
  \<^verbatim>\<open>MoveToFront\<close> also when the element is the front already. \<^verbatim>\<open>PushFront\<close>
  allocates a new element: the address \<open>fresh\<close>, which no earlier element has.

  Belonging to the list is membership in the sequence. Go's \<^verbatim>\<open>Init\<close> leaves the
  \<^verbatim>\<open>list\<close> field of the elements it drops as it was, so for a dropped element the test
  of Go and the test of the model differ; \<^verbatim>\<open>Clear\<close> replaces the index in the same
  call, and \<open>index_inv\<close> below shows that the cache never holds an element that is not in
  the list.
\<close>

definition Back :: "addr list \<Rightarrow> addr option" where
  "Back l = (case l of [] \<Rightarrow> None | _ # _ \<Rightarrow> Some (last l))"

definition Front :: "addr list \<Rightarrow> addr option" where
  "Front l = (case l of [] \<Rightarrow> None | x # _ \<Rightarrow> Some x)"

definition MoveToFront :: "addr \<Rightarrow> addr list \<Rightarrow> addr list" where
  "MoveToFront e l = (if e \<notin> set l \<or> Front l = Some e then l else e # remove1 e l)"

definition Remove :: "addr \<Rightarrow> addr list \<Rightarrow> addr list" where
  "Remove e l = (if e \<in> set l then remove1 e l else l)"

definition PushFront :: "addr \<Rightarrow> addr list \<Rightarrow> addr list" where
  "PushFront e l = e # l"

subsection \<open>The cache\<close>

definition NewCache :: "int \<Rightarrow> 'v Cache" where
  "NewCache sz =
     \<lparr>max_size = sz, curr_size = 0, cache = Map.empty, lru = [], elems = Map.empty,
      fresh = 0\<rparr>"

definition removeElement :: "addr \<Rightarrow> 'v Cache \<Rightarrow> 'v Cache option" where
  "removeElement e c =
     (case elems c e of
        None \<Rightarrow> None
      | Some kv \<Rightarrow>
          Some (c\<lparr>lru := Remove e (lru c),
                  cache := (cache c)(key kv := None),
                  curr_size := curr_size c - 1\<rparr>))"

definition removeLRU :: "'v Cache \<Rightarrow> 'v Cache option" where
  "removeLRU c =
     (if curr_size c = 0 then Some c
      else case Back (lru c) of
             None \<Rightarrow> Some c
           | Some ele \<Rightarrow> removeElement ele c)"

text \<open>
  \<open>insertNew\<close> is the end of \<^verbatim>\<open>Set\<close>, after the eviction: the \<^verbatim>\<open>PushFront\<close> of a
  new item, the entry of the index and the increment of the size.
\<close>

definition insertNew :: "string \<Rightarrow> 'v iface \<Rightarrow> 'v Cache \<Rightarrow> 'v Cache" where
  "insertNew k v c =
     c\<lparr>lru := PushFront (fresh c) (lru c),
       elems := (elems c)(fresh c \<mapsto> \<lparr>key = k, val = v\<rparr>),
       cache := (cache c)(k \<mapsto> fresh c),
       curr_size := curr_size c + 1,
       fresh := Suc (fresh c)\<rparr>"

definition Set :: "string \<Rightarrow> 'v iface \<Rightarrow> 'v Cache \<Rightarrow> 'v Cache option" where
  "Set k v c =
     (case cache c k of
        Some ele \<Rightarrow>
          (case elems c ele of
             None \<Rightarrow> None
           | Some it \<Rightarrow>
               Some (c\<lparr>lru := MoveToFront ele (lru c),
                       elems := (elems c)(ele \<mapsto> it\<lparr>val := v\<rparr>)\<rparr>))
      | None \<Rightarrow>
          (case (if max_size c \<le> curr_size c then removeLRU c else Some c) of
             None \<Rightarrow> None
           | Some c1 \<Rightarrow> Some (insertNew k v c1)))"

definition Get :: "string \<Rightarrow> 'v Cache \<Rightarrow> (('v iface \<times> bool) \<times> 'v Cache) option" where
  "Get k c =
     (case cache c k of
        Some ele \<Rightarrow>
          (case elems c ele of
             None \<Rightarrow> None
           | Some it \<Rightarrow> Some ((val it, True), c\<lparr>lru := MoveToFront ele (lru c)\<rparr>))
      | None \<Rightarrow> Some ((None, False), c))"

definition Len :: "'v Cache \<Rightarrow> int" where
  "Len c = curr_size c"

definition Clear :: "'v Cache \<Rightarrow> 'v Cache" where
  "Clear c = c\<lparr>curr_size := 0, cache := Map.empty, lru := []\<rparr>"

subsection \<open>Sequences of calls\<close>

datatype 'v call = CallSet string "'v iface" | CallGet string | CallLen | CallClear

fun step :: "'v call \<Rightarrow> 'v Cache \<Rightarrow> 'v Cache option" where
  "step (CallSet k v) c = Set k v c"
| "step (CallGet k) c = (case Get k c of None \<Rightarrow> None | Some (r, c') \<Rightarrow> Some c')"
| "step CallLen c = Some c"
| "step CallClear c = Some (Clear c)"

fun run :: "'v call list \<Rightarrow> 'v Cache \<Rightarrow> 'v Cache option" where
  "run [] c = Some c"
| "run (x # xs) c = (case step x c of None \<Rightarrow> None | Some c' \<Rightarrow> run xs c')"

fun Get_times :: "nat \<Rightarrow> string \<Rightarrow> 'v Cache \<Rightarrow> 'v Cache option" where
  "Get_times 0 k c = Some c"
| "Get_times (Suc n) k c = (case Get k c of None \<Rightarrow> None | Some (r, c') \<Rightarrow> Get_times n k c')"

inductive reachable :: "'v Cache \<Rightarrow> bool" where
  reachable_new: "reachable (NewCache n)"
| reachable_step: "reachable c \<Longrightarrow> step x c = Some c' \<Longrightarrow> reachable c'"


subsection \<open>Observations\<close>

text \<open>
  What a caller sees of \<^verbatim>\<open>Get\<close> is the returned pair; \<open>within_capacity\<close> is the
  comparison \<^verbatim>\<open>Len() <= capacity\<close>; \<open>lru_keys\<close> reads the keys of the items along the
  recency list, front first.
\<close>

definition Get_result :: "string \<Rightarrow> 'v Cache \<Rightarrow> ('v iface \<times> bool) option" where
  "Get_result k c = map_option fst (Get k c)"

definition within_capacity :: "'v Cache \<Rightarrow> bool" where
  "within_capacity c \<longleftrightarrow> Len c \<le> max_size c"

definition lru_keys :: "'v Cache \<Rightarrow> string list" where
  "lru_keys c = List.map_filter (\<lambda>a. map_option key (elems c a)) (lru c)"

definition set_calls :: "(string \<times> 'v iface) list \<Rightarrow> 'v call list" where
  "set_calls kvs = map (\<lambda>(k, v). CallSet k v) kvs"

subsection \<open>Consistency of the index and the recency list\<close>

text \<open>
  \<open>index_inv\<close>: the list has no element twice, \<^verbatim>\<open>curr_size\<close> is its length, every
  element of the list is allocated, holds an item and is what the index gives for the key
  of that item, and every element the index gives is in the list and holds the key it is
  indexed by. \<open>cache_inv\<close> adds the bound on the size.
\<close>

definition index_inv :: "'v Cache \<Rightarrow> bool" where
  "index_inv c \<longleftrightarrow>
     distinct (lru c) \<and>
     curr_size c = int (length (lru c)) \<and>
     (\<forall>a \<in> set (lru c). a < fresh c \<and> (\<exists>it. elems c a = Some it \<and> cache c (key it) = Some a)) \<and>
     (\<forall>k a. cache c k = Some a \<longrightarrow> a \<in> set (lru c) \<and> (\<exists>it. elems c a = Some it \<and> key it = k))"

definition cache_inv :: "'v Cache \<Rightarrow> bool" where
  "cache_inv c \<longleftrightarrow> index_inv c \<and> curr_size c \<le> max 1 (max_size c)"


subsection \<open>Concrete states and call sequences\<close>

text \<open>
  \<open>two_entries\<close> is the cache of capacity 2 after \<^verbatim>\<open>Set("a", 1); Set("b", 2)\<close>;
  \<open>one_entry\<close> is the cache of capacity -2 after the calls \<open>mixed_calls\<close>;
  \<open>refresh_calls\<close> is the sequence of the recency test of the specification and
  \<open>plain_calls\<close> the same sequence without its \<^verbatim>\<open>Get("a")\<close>.
\<close>

definition two_entries :: "int Cache" where
  "two_entries =
     \<lparr>max_size = 2, curr_size = 2,
      cache = [''a'' \<mapsto> 0, ''b'' \<mapsto> 1],
      lru = [1, 0],
      elems = [0 \<mapsto> \<lparr>key = ''a'', val = Some 1\<rparr>, 1 \<mapsto> \<lparr>key = ''b'', val = Some 2\<rparr>],
      fresh = 2\<rparr>"

definition mixed_calls :: "int call list" where
  "mixed_calls =
     [CallSet ''a'' (Some 1), CallSet ''b'' (Some 2), CallLen, CallGet ''a'', CallClear,
      CallSet ''c'' (Some 3)]"

definition one_entry :: "int Cache" where
  "one_entry =
     \<lparr>max_size = - 2, curr_size = 1,
      cache = [''c'' \<mapsto> 2],
      lru = [2],
      elems = [0 \<mapsto> \<lparr>key = ''a'', val = Some 1\<rparr>, 1 \<mapsto> \<lparr>key = ''b'', val = Some 2\<rparr>,
               2 \<mapsto> \<lparr>key = ''c'', val = Some 3\<rparr>],
      fresh = 3\<rparr>"

definition refresh_calls :: "int call list" where
  "refresh_calls =
     [CallSet ''a'' (Some 1), CallSet ''b'' (Some 2), CallGet ''a'', CallSet ''c'' (Some 3)]"

definition plain_calls :: "int call list" where
  "plain_calls = [CallSet ''a'' (Some 1), CallSet ''b'' (Some 2), CallSet ''c'' (Some 3)]"

section \<open>Lemmas\<close>

subsection \<open>The list operations\<close>

lemma MoveToFront_eq: "e \<in> set l \<Longrightarrow> MoveToFront e l = e # remove1 e l"
  by (cases l) (auto simp: MoveToFront_def Front_def)

lemma set_MoveToFront: "set (MoveToFront e l) = set l"
proof (cases "e \<in> set l")
  case True
  then have "set (e # remove1 e l) = set l"
    by (induction l) auto
  with True show ?thesis by (simp add: MoveToFront_eq)
next
  case False
  then show ?thesis by (simp add: MoveToFront_def)
qed

lemma distinct_MoveToFront: "distinct l \<Longrightarrow> distinct (MoveToFront e l)"
  by (auto simp: MoveToFront_def)

lemma length_MoveToFront: "length (MoveToFront e l) = length l"
proof (cases "e \<in> set l")
  case True
  then have "0 < length l" by (cases l) auto
  with True show ?thesis by (simp add: MoveToFront_eq length_remove1)
next
  case False
  then show ?thesis by (simp add: MoveToFront_def)
qed

lemma remove1_last: "distinct l \<Longrightarrow> l \<noteq> [] \<Longrightarrow> remove1 (last l) l = butlast l"
  by (induction l) (auto)

subsection \<open>The invariant holds in every state the cache reaches\<close>

lemma index_inv_NewCache: "index_inv (NewCache n)"
  by (simp add: index_inv_def NewCache_def)

lemma index_inv_Clear: "index_inv (Clear c)"
  by (simp add: index_inv_def Clear_def)

lemma index_inv_hit:
  assumes "index_inv c" "cache c k = Some a"
  shows "\<exists>it. elems c a = Some it \<and> key it = k \<and> a \<in> set (lru c)"
  using assms unfolding index_inv_def by blast

lemma index_inv_touch:
  assumes "index_inv c"
  shows "index_inv (c\<lparr>lru := MoveToFront a (lru c)\<rparr>)"
  using assms unfolding index_inv_def
  by (simp add: set_MoveToFront distinct_MoveToFront length_MoveToFront)

lemma index_inv_update:
  assumes "index_inv c" "elems c a = Some it"
  shows "index_inv (c\<lparr>elems := (elems c)(a \<mapsto> it\<lparr>val := v\<rparr>)\<rparr>)"
  using assms unfolding index_inv_def
  apply (intro conjI)
  apply simp
  apply simp
  apply (simp, metis option.inject)
  apply (simp, metis option.inject)
  done

lemma index_inv_insertNew:
  assumes inv: "index_inv c" and miss: "cache c k = None"
  shows "index_inv (insertNew k v c)"
proof -
  let ?f = "fresh c"
  have d: "distinct (lru c)" and n: "curr_size c = int (length (lru c))"
    and l: "\<And>a. a \<in> set (lru c) \<Longrightarrow>
              a < ?f \<and> (\<exists>it. elems c a = Some it \<and> cache c (key it) = Some a)"
    and m: "\<And>k' a. cache c k' = Some a \<Longrightarrow>
              a \<in> set (lru c) \<and> (\<exists>it. elems c a = Some it \<and> key it = k')"
    using inv unfolding index_inv_def by blast+
  have nf: "?f \<notin> set (lru c)" using l by blast
  have l': "\<exists>it. ((elems c)(?f \<mapsto> \<lparr>key = k, val = v\<rparr>)) a = Some it \<and>
                 ((cache c)(k \<mapsto> ?f)) (key it) = Some a"
    if "a \<in> set (?f # lru c)" for a
  proof (cases "a = ?f")
    case True
    then show ?thesis by simp
  next
    case False
    with that obtain it where it: "elems c a = Some it" "cache c (key it) = Some a"
      using l by auto
    with miss have "key it \<noteq> k" by auto
    with it False show ?thesis by simp
  qed
  have m': "a \<in> set (?f # lru c) \<and>
            (\<exists>it. ((elems c)(?f \<mapsto> \<lparr>key = k, val = v\<rparr>)) a = Some it \<and> key it = k')"
    if "((cache c)(k \<mapsto> ?f)) k' = Some a" for k' a
  proof (cases "k' = k")
    case True
    with that show ?thesis by simp
  next
    case False
    with that have "cache c k' = Some a" by simp
    from m[OF this] nf show ?thesis by auto
  qed
  show ?thesis
    unfolding index_inv_def insertNew_def PushFront_def
    using d n nf l l' m' by (simp add: less_Suc_eq)
qed

lemma index_inv_removeElement:
  assumes inv: "index_inv c" and ne: "lru c \<noteq> []"
  shows "\<exists>kv. elems c (last (lru c)) = Some kv \<and> cache c (key kv) = Some (last (lru c)) \<and>
          removeElement (last (lru c)) c =
            Some (c\<lparr>lru := butlast (lru c), cache := (cache c)(key kv := None),
                    curr_size := curr_size c - 1\<rparr>) \<and>
          index_inv (c\<lparr>lru := butlast (lru c), cache := (cache c)(key kv := None),
                    curr_size := curr_size c - 1\<rparr>)"
proof -
  let ?e = "last (lru c)"
  have d: "distinct (lru c)" and n: "curr_size c = int (length (lru c))"
    and l: "\<And>a. a \<in> set (lru c) \<Longrightarrow>
              a < fresh c \<and> (\<exists>it. elems c a = Some it \<and> cache c (key it) = Some a)"
    and m: "\<And>k' a. cache c k' = Some a \<Longrightarrow>
              a \<in> set (lru c) \<and> (\<exists>it. elems c a = Some it \<and> key it = k')"
    using inv unfolding index_inv_def by blast+
  have e: "?e \<in> set (lru c)" using ne by simp
  then obtain kv where kv: "elems c ?e = Some kv" "cache c (key kv) = Some ?e"
    using l by blast
  have rm: "Remove ?e (lru c) = butlast (lru c)"
    using e d ne by (simp add: Remove_def remove1_last)
  have bl: "set (butlast (lru c)) = set (lru c) - {?e}"
    using d ne by (metis rm Remove_def e set_remove1_eq)
  have l': "a < fresh c \<and> (\<exists>it. elems c a = Some it \<and> ((cache c)(key kv := None)) (key it) = Some a)"
    if "a \<in> set (butlast (lru c))" for a
  proof -
    from that bl have a: "a \<in> set (lru c)" "a \<noteq> ?e" by auto
    then obtain it where it: "elems c a = Some it" "cache c (key it) = Some a" "a < fresh c"
      using l by blast
    with kv a have "key it \<noteq> key kv" by auto
    with it show ?thesis by simp
  qed
  have m': "a \<in> set (butlast (lru c)) \<and> (\<exists>it. elems c a = Some it \<and> key it = k')"
    if "((cache c)(key kv := None)) k' = Some a" for k' a
  proof -
    from that have k: "k' \<noteq> key kv" "cache c k' = Some a" by (auto split: if_splits)
    from m[OF k(2)] obtain it where it: "a \<in> set (lru c)" "elems c a = Some it" "key it = k'"
      by blast
    with k kv have "a \<noteq> ?e" by auto
    with it bl show ?thesis by simp
  qed
  have len: "int (length (butlast (lru c))) = curr_size c - 1"
    using n ne by (cases "lru c") auto
  have "index_inv (c\<lparr>lru := butlast (lru c), cache := (cache c)(key kv := None),
                    curr_size := curr_size c - 1\<rparr>)"
    unfolding index_inv_def using d l' m' len by (simp add: distinct_butlast)
  with kv rm show ?thesis by (simp add: removeElement_def)
qed

lemma Back_eq: "Back l = (if l = [] then None else Some (last l))"
  by (cases l) (simp_all add: Back_def)

lemma index_inv_nonempty: "index_inv c \<Longrightarrow> curr_size c \<noteq> 0 \<Longrightarrow> lru c \<noteq> []"
  by (auto simp: index_inv_def)

lemma index_inv_removeLRU:
  fixes c :: "'v Cache"
  assumes inv: "index_inv c"
  shows "\<exists>c'. removeLRU c = Some c' \<and> index_inv c' \<and>
          (\<forall>k. cache c k = None \<longrightarrow> cache c' k = None) \<and>
          max_size c' = max_size c \<and>
          curr_size c' = (if curr_size c = 0 then 0 else curr_size c - 1)"
proof (cases "curr_size c = 0")
  case True
  with inv show ?thesis by (simp add: removeLRU_def)
next
  case False
  with inv have ne: "lru c \<noteq> []" by (rule index_inv_nonempty)
  from index_inv_removeElement[OF inv ne] obtain kv :: "'v cacheItem" where
    "removeElement (last (lru c)) c =
            Some (c\<lparr>lru := butlast (lru c), cache := (cache c)(key kv := None),
                    curr_size := curr_size c - 1\<rparr>)"
    "index_inv (c\<lparr>lru := butlast (lru c), cache := (cache c)(key kv := None),
                    curr_size := curr_size c - 1\<rparr>)"
    by blast
  with False ne show ?thesis by (simp add: removeLRU_def Back_eq)
qed

lemma index_inv_nonneg: "index_inv c \<Longrightarrow> 0 \<le> curr_size c"
  by (simp add: index_inv_def)

lemma cache_inv_Set:
  assumes "cache_inv c"
  shows "\<exists>c'. Set k v c = Some c' \<and> cache_inv c' \<and> max_size c' = max_size c"
proof (cases "cache c k")
  case (Some a)
  from assms have inv: "index_inv c" and b: "curr_size c \<le> max 1 (max_size c)"
    by (simp_all add: cache_inv_def)
  from index_inv_hit[OF inv Some] obtain it where it: "elems c a = Some it" by blast
  have "index_inv (c\<lparr>lru := MoveToFront a (lru c)\<rparr>)" using inv by (rule index_inv_touch)
  from index_inv_update[OF this, of a it v] it
  have "index_inv (c\<lparr>lru := MoveToFront a (lru c), elems := (elems c)(a \<mapsto> it\<lparr>val := v\<rparr>)\<rparr>)"
    by simp
  with Some it b show ?thesis by (simp add: Set_def cache_inv_def)
next
  case None
  from assms have inv: "index_inv c" and b: "curr_size c \<le> max 1 (max_size c)"
    by (simp_all add: cache_inv_def)
  show ?thesis
  proof (cases "max_size c \<le> curr_size c")
    case True
    from index_inv_removeLRU[OF inv] None obtain c1 where
      c1: "removeLRU c = Some c1" "index_inv c1" "cache c1 k = None"
          "max_size c1 = max_size c"
          "curr_size c1 = (if curr_size c = 0 then 0 else curr_size c - 1)"
      by blast
    have "index_inv (insertNew k v c1)" using c1(2,3) by (rule index_inv_insertNew)
    moreover have "curr_size (insertNew k v c1) \<le> max 1 (max_size c)"
      using c1(5) b by (simp add: insertNew_def)
    moreover have "max_size (insertNew k v c1) = max_size c"
      using c1(4) by (simp add: insertNew_def)
    ultimately show ?thesis using None True c1(1) by (simp add: Set_def cache_inv_def)
  next
    case False
    have "index_inv (insertNew k v c)" using inv None by (rule index_inv_insertNew)
    moreover have "curr_size (insertNew k v c) \<le> max 1 (max_size c)"
      using False by (simp add: insertNew_def)
    moreover have "max_size (insertNew k v c) = max_size c"
      by (simp add: insertNew_def)
    ultimately show ?thesis using None False by (simp add: Set_def cache_inv_def)
  qed
qed

lemma cache_inv_Get:
  assumes "cache_inv c"
  shows "\<exists>r c'. Get k c = Some (r, c') \<and> cache_inv c' \<and> max_size c' = max_size c"
proof (cases "cache c k")
  case None
  with assms show ?thesis by (auto simp: Get_def)
next
  case (Some a)
  from assms have inv: "index_inv c" and b: "curr_size c \<le> max 1 (max_size c)"
    by (simp_all add: cache_inv_def)
  from index_inv_hit[OF inv Some] obtain it where it: "elems c a = Some it" by blast
  have "index_inv (c\<lparr>lru := MoveToFront a (lru c)\<rparr>)" using inv by (rule index_inv_touch)
  with Some it b show ?thesis by (auto simp: Get_def cache_inv_def)
qed

lemma cache_inv_NewCache: "cache_inv (NewCache n)"
  by (simp add: cache_inv_def index_inv_NewCache) (simp add: NewCache_def)

lemma cache_inv_Clear: "cache_inv (Clear c)"
  by (simp add: cache_inv_def index_inv_Clear) (simp add: Clear_def)

lemma cache_inv_step:
  assumes "cache_inv c"
  shows "\<exists>c'. step x c = Some c' \<and> cache_inv c' \<and> max_size c' = max_size c"
proof (cases x)
  case (CallSet k v)
  with cache_inv_Set[OF assms, of k v] show ?thesis by simp
next
  case (CallGet k)
  with cache_inv_Get[OF assms, of k] show ?thesis by auto
next
  case CallLen
  with assms show ?thesis by simp
next
  case CallClear
  then show ?thesis by (simp add: cache_inv_Clear) (simp add: Clear_def)
qed

lemma cache_inv_run:
  "cache_inv c \<Longrightarrow> \<exists>c'. run xs c = Some c' \<and> cache_inv c' \<and> max_size c' = max_size c"
proof (induction xs arbitrary: c)
  case Nil
  then show ?case by simp
next
  case (Cons x xs)
  from cache_inv_step[OF Cons.prems, of x] obtain c1 where
    c1: "step x c = Some c1" "cache_inv c1" "max_size c1 = max_size c" by blast
  from Cons.IH[OF c1(2)] c1 show ?case by auto
qed

lemma reachable_inv: "reachable c \<Longrightarrow> cache_inv c"
proof (induction rule: reachable.induct)
  case (reachable_new n)
  show ?case by (rule cache_inv_NewCache)
next
  case (reachable_step c x c')
  with cache_inv_step[of c x] show ?case by auto
qed

lemma reachable_run: "reachable c \<Longrightarrow> run xs c = Some c' \<Longrightarrow> reachable c'"
proof (induction xs arbitrary: c)
  case Nil
  then show ?case by simp
next
  case (Cons x xs)
  then show ?case by (auto split: option.splits intro: reachable_step)
qed



subsection \<open>The concrete state\<close>

lemma run_two_entries:
  "run [CallSet ''a'' (Some 1), CallSet ''b'' (Some 2)] (NewCache 2) = Some two_entries"
  by (simp add: two_entries_def NewCache_def Set_def insertNew_def PushFront_def)

lemma reachable_two_entries: "reachable two_entries"
  using reachable_run[OF reachable_new run_two_entries] .

subsection \<open>The keys along the recency list\<close>

lemma map_filter_total:
  "\<forall>a \<in> set l. \<exists>y. f a = Some y \<Longrightarrow> List.map_filter f l = map (\<lambda>a. the (f a)) l"
  by (induction l) auto

lemma index_inv_keys:
  fixes c :: "'v Cache"
  assumes inv: "index_inv c"
  shows "set (lru_keys c) = dom (cache c)" and "distinct (lru_keys c)"
    and "length (lru_keys c) = length (lru c)"
    and "int (card (dom (cache c))) = curr_size c"
    and "bij_betw (\<lambda>k. the (cache c k)) (dom (cache c)) (set (lru c))"
proof -
  let ?g = "\<lambda>a. the (map_option key (elems c a))"
  have l: "\<And>a. a \<in> set (lru c) \<Longrightarrow> \<exists>it. elems c a = Some it \<and> cache c (key it) = Some a"
    and m: "\<And>k a. cache c k = Some a \<Longrightarrow>
              a \<in> set (lru c) \<and> (\<exists>it. elems c a = Some it \<and> key it = k)"
    and d: "distinct (lru c)" and n: "curr_size c = int (length (lru c))"
    using inv unfolding index_inv_def by blast+
  have "\<forall>a \<in> set (lru c). \<exists>y. map_option key (elems c a) = Some y"
    using l by fastforce
  then have keys: "lru_keys c = map ?g (lru c)"
    unfolding lru_keys_def by (rule map_filter_total)
  have to_elem: "cache c (?g a) = Some a" if "a \<in> set (lru c)" for a
    using l[OF that] by auto
  have to_key: "a \<in> set (lru c) \<and> ?g a = k" if "cache c k = Some a" for k a
    using m[OF that] by auto
  have inj: "inj_on ?g (set (lru c))"
    by (rule inj_onI) (metis to_elem option.inject)
  show dom: "set (lru_keys c) = dom (cache c)"
  proof
    show "set (lru_keys c) \<subseteq> dom (cache c)"
      using to_elem by (auto simp: keys)
    show "dom (cache c) \<subseteq> set (lru_keys c)"
    proof
      fix k assume "k \<in> dom (cache c)"
      then obtain a where "cache c k = Some a" by auto
      from to_key[OF this] show "k \<in> set (lru_keys c)" by (auto simp: keys)
    qed
  qed
  show dist: "distinct (lru_keys c)"
    using d inj by (simp add: keys distinct_map)
  show "length (lru_keys c) = length (lru c)" by (simp add: keys)
  have "card (dom (cache c)) = length (lru_keys c)"
    using dist dom by (metis distinct_card)
  then show "int (card (dom (cache c))) = curr_size c" by (simp add: keys n)
  show "bij_betw (\<lambda>k. the (cache c k)) (dom (cache c)) (set (lru c))"
  proof (rule bij_betw_imageI)
    show "inj_on (\<lambda>k. the (cache c k)) (dom (cache c))"
    proof (rule inj_onI)
      fix k k' assume "k \<in> dom (cache c)" "k' \<in> dom (cache c)"
        and eq: "the (cache c k) = the (cache c k')"
      then obtain a a' where "cache c k = Some a" "cache c k' = Some a'" by auto
      with eq to_key[of k a] to_key[of k' a'] show "k = k'" by auto
    qed
    show "(\<lambda>k. the (cache c k)) ` dom (cache c) = set (lru c)"
    proof
      show "(\<lambda>k. the (cache c k)) ` dom (cache c) \<subseteq> set (lru c)"
        using to_key by auto
      show "set (lru c) \<subseteq> (\<lambda>k. the (cache c k)) ` dom (cache c)"
      proof
        fix a assume "a \<in> set (lru c)"
        from to_elem[OF this] show "a \<in> (\<lambda>k. the (cache c k)) ` dom (cache c)"
          by (metis domI image_eqI option.sel)
      qed
    qed
  qed
qed

subsection \<open>What Set does\<close>

lemma Set_then_Get: "Set k v c = Some c' \<Longrightarrow> Get_result k c' = Some (v, True)"
  by (auto simp: Set_def Get_result_def Get_def insertNew_def split: option.splits if_splits)

lemma Set_new_key_result:
  fixes c :: "'v Cache"
  assumes inv: "index_inv c" and miss: "cache c k = None"
  shows "\<exists>c'. Set k v c = Some c' \<and>
           elems c' = (elems c)(fresh c \<mapsto> \<lparr>key = k, val = v\<rparr>) \<and>
           (if max_size c \<le> curr_size c \<and> curr_size c \<noteq> 0
            then \<exists>kv. lru c \<noteq> [] \<and> elems c (last (lru c)) = Some kv \<and>
                   cache c (key kv) = Some (last (lru c)) \<and>
                   lru c' = fresh c # butlast (lru c) \<and>
                   cache c' = (cache c)(key kv := None, k \<mapsto> fresh c) \<and>
                   curr_size c' = curr_size c
            else lru c' = fresh c # lru c \<and> cache c' = (cache c)(k \<mapsto> fresh c) \<and>
                 curr_size c' = curr_size c + 1)"
proof (cases "max_size c \<le> curr_size c \<and> curr_size c \<noteq> 0")
  case True
  with inv have ne: "lru c \<noteq> []" by (simp add: index_inv_nonempty)
  from index_inv_removeElement[OF inv ne] obtain kv :: "'v cacheItem" where
    kv: "elems c (last (lru c)) = Some kv" "cache c (key kv) = Some (last (lru c))"
      "removeElement (last (lru c)) c =
            Some (c\<lparr>lru := butlast (lru c), cache := (cache c)(key kv := None),
                    curr_size := curr_size c - 1\<rparr>)"
    by blast
  with True ne miss show ?thesis
    by (auto simp: Set_def removeLRU_def Back_eq insertNew_def PushFront_def)
next
  case False
  with miss show ?thesis
    by (auto simp: Set_def removeLRU_def insertNew_def PushFront_def)
qed

subsection \<open>Runs from a new cache\<close>

lemma run_NewCache:
  "\<exists>c. run xs (NewCache sz) = Some c \<and> cache_inv c \<and> max_size c = sz"
  using cache_inv_run[OF cache_inv_NewCache, of xs sz] by (simp add: NewCache_def)

lemma index_inv_present_size:
  assumes "index_inv c" and "cache c k = Some a"
  shows "1 \<le> curr_size c"
proof -
  from index_inv_hit[OF assms] have "a \<in> set (lru c)" by blast
  then have "1 \<le> int (length (lru c))" by (cases "lru c") auto
  moreover have "curr_size c = int (length (lru c))"
    using assms(1) by (simp add: index_inv_def)
  ultimately show ?thesis by simp
qed

lemma size_bounds:
  "reachable c \<Longrightarrow> 0 \<le> curr_size c \<and> curr_size c \<le> max 1 (max_size c)"
  using reachable_inv[of c] by (simp add: cache_inv_def index_inv_nonneg)

section \<open>The claims\<close>

text \<open>
  C6: for every cache state and every absent key, any number of repeated \<^verbatim>\<open>Get\<close> calls on
  that key leaves the whole state as it was: the index, the recency order, the store of the
  items and \<^verbatim>\<open>Len()\<close>. The state after \<open>n\<close> calls is the state before them.
\<close>

theorem Get_miss_repeated:
  "cache c k = None \<Longrightarrow> Get_times n k c = Some c"
  by (induction n) (simp_all add: Get_def)

theorem Get_miss_repeated_witness:
  "cache two_entries ''z'' = None \<and> Get_times 3 ''z'' two_entries = Some two_entries \<and>
   Get_result ''z'' two_entries = Some (None, False)"
proof -
  have h: "cache two_entries ''z'' = None" by (simp add: two_entries_def)
  from Get_miss_repeated[OF h, of 3] h show ?thesis
    by (auto simp: Get_result_def Get_def)
qed

text \<open>
  C7: for every cache state, after \<^verbatim>\<open>Clear()\<close> the cache is empty: \<^verbatim>\<open>Len()\<close> is 0, the
  index has no key, the recency list has no element, and \<^verbatim>\<open>Get\<close> on every key (so on
  every key set before) returns the nil value and \<^verbatim>\<open>false\<close>, leaving the cleared state as
  it is.
\<close>

theorem Clear_empties:
  "Len (Clear c) = 0 \<and> cache (Clear c) = Map.empty \<and> lru (Clear c) = [] \<and>
   lru_keys (Clear c) = [] \<and>
   (\<forall>k. Get k (Clear c) = Some ((None, False), Clear c))"
  by (simp add: Clear_def Len_def Get_def lru_keys_def List.map_filter_simps)

theorem Clear_empties_witness:
  "Get_result ''a'' two_entries = Some (Some 1, True) \<and>
   Get_result ''a'' (Clear two_entries) = Some (None, False) \<and>
   Len (Clear two_entries) = 0"
  using Clear_empties[of two_entries]
  by (auto simp: Get_result_def Get_def two_entries_def Clear_def)

text \<open>
  C8: on a fresh cache of capacity 2, \<^verbatim>\<open>Set(a,1); Set(b,2); Get(a); Set(c,3)\<close> evicts
  \<^verbatim>\<open>b\<close> and not \<^verbatim>\<open>a\<close>: afterwards \<^verbatim>\<open>Get(b)\<close> finds nothing and \<^verbatim>\<open>Get(a)\<close>,
  \<^verbatim>\<open>Get(c)\<close> find their values. The \<^verbatim>\<open>Get(a)\<close> is the cause: the same calls without it
  evict \<^verbatim>\<open>a\<close> and keep \<^verbatim>\<open>b\<close>.
\<close>

theorem recency_refresh_via_Get:
  "(\<exists>c. run refresh_calls (NewCache 2) = Some c \<and>
        Get_result ''b'' c = Some (None, False) \<and>
        Get_result ''a'' c = Some (Some 1, True) \<and>
        Get_result ''c'' c = Some (Some 3, True) \<and>
        lru_keys c = [''c'', ''a''] \<and> Len c = 2) \<and>
   (\<exists>c. run plain_calls (NewCache 2) = Some c \<and>
        Get_result ''a'' c = Some (None, False) \<and>
        Get_result ''b'' c = Some (Some 2, True) \<and>
        lru_keys c = [''c'', ''b''])"
  by (auto simp: refresh_calls_def plain_calls_def NewCache_def Set_def Get_def insertNew_def
      PushFront_def MoveToFront_def Front_def removeLRU_def removeElement_def Back_def
      Remove_def Get_result_def lru_keys_def List.map_filter_simps Len_def)

theorem recency_refresh_via_Get_witness:
  "Option.bind (run refresh_calls (NewCache 2)) (Get_result ''b'') = Some (None, False) \<and>
   Option.bind (run refresh_calls (NewCache 2)) (Get_result ''a'') = Some (Some 1, True) \<and>
   Option.bind (run plain_calls (NewCache 2)) (Get_result ''a'') = Some (None, False)"
  using recency_refresh_via_Get by auto


text \<open>
  C4: for every state the cache can be in and every key already present, \<^verbatim>\<open>Set(key, value)\<close>
  replaces the value of that key's item in place (the element keeps its address and its
  key), moves the element to the front of the recency list, evicts nothing (the list has
  the same elements and the index is the same map) and leaves \<^verbatim>\<open>Len()\<close> unchanged.
\<close>

theorem Set_existing_key:
  fixes c :: "'v Cache"
  assumes "reachable c" and "cache c k = Some a"
  shows "\<exists>c'. Set k v c = Some c' \<and>
           elems c' = (elems c)(a \<mapsto> \<lparr>key = k, val = v\<rparr>) \<and>
           a \<in> set (lru c) \<and> lru c' = a # remove1 a (lru c) \<and>
           set (lru c') = set (lru c) \<and> cache c' = cache c \<and>
           Len c' = Len c \<and> max_size c' = max_size c \<and> fresh c' = fresh c"
proof -
  from assms(1) have "cache_inv c" by (rule reachable_inv)
  then have inv: "index_inv c" by (simp add: cache_inv_def)
  from index_inv_hit[OF inv assms(2)] obtain it :: "'v cacheItem" where
    it: "elems c a = Some it" "key it = k" "a \<in> set (lru c)" by blast
  have "set (a # remove1 a (lru c)) = set (lru c)"
    using set_MoveToFront[of a "lru c"] it(3) by (simp add: MoveToFront_eq)
  then show ?thesis using assms(2) it
    by (cases it) (simp add: Set_def MoveToFront_eq Len_def)
qed

theorem Set_existing_key_witness:
  "reachable two_entries \<and> cache two_entries ''a'' = Some 0 \<and>
   map_option lru (Set ''a'' (Some 10) two_entries) = Some [0, 1] \<and>
   map_option Len (Set ''a'' (Some 10) two_entries) = Some 2 \<and>
   Option.bind (Set ''a'' (Some 10) two_entries) (Get_result ''a'') = Some (Some 10, True)"
proof -
  have h: "cache two_entries ''a'' = Some 0" by (simp add: two_entries_def)
  from Set_existing_key[OF reachable_two_entries h, of "Some 10"]
  obtain c' where c': "Set ''a'' (Some 10) two_entries = Some c'"
    "elems c' = (elems two_entries)(0 \<mapsto> \<lparr>key = ''a'', val = Some 10\<rparr>)"
    "lru c' = 0 # remove1 0 (lru two_entries)" "cache c' = cache two_entries"
    "Len c' = Len two_entries"
    by blast
  then show ?thesis using reachable_two_entries h
    by (auto simp: Get_result_def Get_def two_entries_def Len_def)
qed

text \<open>
  C5: for every state the cache can be in and every key: if the key is present, \<^verbatim>\<open>Get(key)\<close>
  returns the value currently stored for it with \<^verbatim>\<open>true\<close> and moves its element to the
  front of the recency list, changing nothing else; if the key is absent it returns the nil
  value with \<^verbatim>\<open>false\<close> and the state it was given.
\<close>

theorem Get_hit_and_miss:
  fixes c :: "'v Cache"
  assumes "reachable c"
  shows "(\<forall>a. cache c k = Some a \<longrightarrow>
            (\<exists>it. elems c a = Some it \<and> key it = k \<and> a \<in> set (lru c) \<and>
                  Get k c = Some ((val it, True), c\<lparr>lru := a # remove1 a (lru c)\<rparr>))) \<and>
         (cache c k = None \<longrightarrow> Get k c = Some ((None, False), c))"
proof (intro conjI allI impI)
  fix a assume hit: "cache c k = Some a"
  from assms have "cache_inv c" by (rule reachable_inv)
  then have inv: "index_inv c" by (simp add: cache_inv_def)
  from index_inv_hit[OF inv hit] obtain it :: "'v cacheItem" where
    it: "elems c a = Some it" "key it = k" "a \<in> set (lru c)" by blast
  with hit show "\<exists>it. elems c a = Some it \<and> key it = k \<and> a \<in> set (lru c) \<and>
                  Get k c = Some ((val it, True), c\<lparr>lru := a # remove1 a (lru c)\<rparr>)"
    by (simp add: Get_def MoveToFront_eq)
next
  assume "cache c k = None"
  then show "Get k c = Some ((None, False), c)" by (simp add: Get_def)
qed

theorem Get_hit_and_miss_witness:
  "reachable two_entries \<and>
   Get ''a'' two_entries = Some ((Some 1, True), two_entries\<lparr>lru := [0, 1]\<rparr>) \<and>
   Get ''z'' two_entries = Some ((None, False), two_entries)"
proof -
  have h: "cache two_entries ''a'' = Some 0" "cache two_entries ''z'' = None"
    "elems two_entries 0 = Some \<lparr>key = ''a'', val = Some 1\<rparr>"
    "lru two_entries = [1, 0]"
    by (simp_all add: two_entries_def)
  from Get_hit_and_miss[OF reachable_two_entries, of "''a''"] h
  have "Get ''a'' two_entries = Some ((Some 1, True), two_entries\<lparr>lru := [0, 1]\<rparr>)"
    by auto
  moreover from Get_hit_and_miss[OF reachable_two_entries, of "''z''"] h
  have "Get ''z'' two_entries = Some ((None, False), two_entries)" by simp
  ultimately show ?thesis using reachable_two_entries by simp
qed



text \<open>
  C9: every public operation (\<^verbatim>\<open>Set\<close>, \<^verbatim>\<open>Get\<close>, \<^verbatim>\<open>Len\<close>, \<^verbatim>\<open>Clear\<close>), started
  in any state the cache can be in, returns without a panic in a state where the index is a
  bijection between the keys in the cache and the elements of the recency list: the keys of
  the index are the keys of the items along the list, no key occurs twice along the list,
  every element of the list holds an item, the index maps each key to the element that
  holds it, and the number of index entries and the number of list elements both equal the
  stored size.
\<close>

theorem index_bijection_preserved:
  fixes c :: "'v Cache"
  assumes "reachable c"
  shows "\<exists>c'. step x c = Some c' \<and>
           set (lru_keys c') = dom (cache c') \<and>
           distinct (lru_keys c') \<and>
           length (lru_keys c') = length (lru c') \<and>
           int (length (lru c')) = curr_size c' \<and>
           int (card (dom (cache c'))) = curr_size c' \<and>
           bij_betw (\<lambda>k. the (cache c' k)) (dom (cache c')) (set (lru c')) \<and>
           (\<forall>k a. cache c' k = Some a \<longrightarrow> map_option key (elems c' a) = Some k)"
proof -
  from assms have "cache_inv c" by (rule reachable_inv)
  from cache_inv_step[OF this, of x] obtain c' where
    c': "step x c = Some c'" "cache_inv c'" by blast
  then have inv: "index_inv c'" by (simp add: cache_inv_def)
  have "\<forall>k a. cache c' k = Some a \<longrightarrow> map_option key (elems c' a) = Some k"
    using index_inv_hit[OF inv] by fastforce
  moreover have "int (length (lru c')) = curr_size c'"
    using inv by (simp add: index_inv_def)
  ultimately show ?thesis using c'(1) index_inv_keys[OF inv] by blast
qed

theorem index_bijection_preserved_witness:
  "reachable two_entries \<and>
   map_option lru_keys (step (CallSet ''c'' (Some 3)) two_entries) = Some [''c'', ''b''] \<and>
   map_option curr_size (step (CallSet ''c'' (Some 3)) two_entries) = Some 2 \<and>
   map_option (\<lambda>c. card (dom (cache c))) (step (CallSet ''c'' (Some 3)) two_entries) = Some 2"
proof -
  from index_bijection_preserved[OF reachable_two_entries, of "CallSet ''c'' (Some 3)"]
  obtain c' where c': "step (CallSet ''c'' (Some 3)) two_entries = Some c'"
    "int (card (dom (cache c'))) = curr_size c'" by blast
  have "step (CallSet ''c'' (Some 3)) two_entries =
      Some \<lparr>max_size = 2, curr_size = 2,
      cache = [''b'' \<mapsto> 1, ''c'' \<mapsto> 2],
      lru = [2, 1],
      elems = [0 \<mapsto> \<lparr>key = ''a'', val = Some 1\<rparr>, 1 \<mapsto> \<lparr>key = ''b'', val = Some 2\<rparr>,
               2 \<mapsto> \<lparr>key = ''c'', val = Some 3\<rparr>],
      fresh = 3\<rparr>"
    by (auto simp: two_entries_def Set_def removeLRU_def Back_def removeElement_def Remove_def
        insertNew_def PushFront_def)
  with c' show ?thesis using reachable_two_entries
    by (auto simp: lru_keys_def)
qed



text \<open>
  C3, as the code has it: in every state the cache can be in with a capacity of at least 1,
  a \<^verbatim>\<open>Set(key, value)\<close> of a key that is not present does the following. When the size
  equals the capacity, exactly one entry is evicted, the one at the back of the recency
  list at that moment: the list loses its last element and nothing else, the index loses
  the key of that element and nothing else; the new entry is then at the front, the index
  maps the new key to it, and the size is what it was before the \<^verbatim>\<open>Set\<close>. When the size
  differs from the capacity, nothing is evicted: the new entry is put in front of the
  unchanged list and the size grows by one.

  The claim was made of every state with size equal to capacity. A cache built with
  capacity 0 has size 0 = capacity; there the guard of \<^verbatim>\<open>removeLRU\<close> evicts nothing and
  the size grows from 0 to 1.
\<close>

theorem Set_new_key:
  fixes c :: "'v Cache"
  assumes "reachable c" and "1 \<le> max_size c" and "cache c k = None"
  shows "(curr_size c = max_size c \<longrightarrow>
            (\<exists>ev kv c'. Back (lru c) = Some ev \<and> lru c = butlast (lru c) @ [ev] \<and>
                elems c ev = Some kv \<and> cache c (key kv) = Some ev \<and>
                Set k v c = Some c' \<and>
                lru c' = fresh c # butlast (lru c) \<and>
                cache c' = (cache c)(key kv := None, k \<mapsto> fresh c) \<and>
                elems c' = (elems c)(fresh c \<mapsto> \<lparr>key = k, val = v\<rparr>) \<and>
                Len c' = Len c)) \<and>
         (curr_size c \<noteq> max_size c \<longrightarrow>
            (\<exists>c'. Set k v c = Some c' \<and>
                lru c' = fresh c # lru c \<and>
                cache c' = (cache c)(k \<mapsto> fresh c) \<and>
                elems c' = (elems c)(fresh c \<mapsto> \<lparr>key = k, val = v\<rparr>) \<and>
                Len c' = Len c + 1))"
proof -
  from assms(1) have ci: "cache_inv c" by (rule reachable_inv)
  then have inv: "index_inv c" and b: "curr_size c \<le> max_size c"
    using assms(2) by (simp_all add: cache_inv_def)
  from Set_new_key_result[OF inv assms(3), of v] obtain c' where
    c': "Set k v c = Some c'" "elems c' = (elems c)(fresh c \<mapsto> \<lparr>key = k, val = v\<rparr>)"
      "if max_size c \<le> curr_size c \<and> curr_size c \<noteq> 0
            then \<exists>kv. lru c \<noteq> [] \<and> elems c (last (lru c)) = Some kv \<and>
                   cache c (key kv) = Some (last (lru c)) \<and>
                   lru c' = fresh c # butlast (lru c) \<and>
                   cache c' = (cache c)(key kv := None, k \<mapsto> fresh c) \<and>
                   curr_size c' = curr_size c
            else lru c' = fresh c # lru c \<and> cache c' = (cache c)(k \<mapsto> fresh c) \<and>
                 curr_size c' = curr_size c + 1"
    by blast
  show ?thesis
  proof (cases "curr_size c = max_size c")
    case True
    with assms(2) c'(3) obtain kv :: "'v cacheItem" where
      kv: "lru c \<noteq> []" "elems c (last (lru c)) = Some kv"
        "cache c (key kv) = Some (last (lru c))"
        "lru c' = fresh c # butlast (lru c)"
        "cache c' = (cache c)(key kv := None, k \<mapsto> fresh c)"
        "curr_size c' = curr_size c"
      by auto
    with True c'(1,2) show ?thesis by (simp add: Back_eq Len_def)
  next
    case False
    with b c' show ?thesis by (simp add: Len_def)
  qed
qed

theorem Set_new_key_witness:
  "reachable two_entries \<and> 1 \<le> max_size two_entries \<and> cache two_entries ''c'' = None \<and>
   curr_size two_entries = max_size two_entries \<and> Back (lru two_entries) = Some 0 \<and>
   map_option lru (Set ''c'' (Some 3) two_entries) = Some [2, 1] \<and>
   map_option Len (Set ''c'' (Some 3) two_entries) = Some 2 \<and>
   map_option lru_keys (Set ''c'' (Some 3) two_entries) = Some [''c'', ''b''] \<and>
   curr_size (NewCache 2 :: int Cache) \<noteq> max_size (NewCache 2 :: int Cache) \<and>
   map_option lru (Set ''a'' (Some 1) (NewCache 2 :: int Cache)) = Some [0] \<and>
   map_option Len (Set ''a'' (Some 1) (NewCache 2 :: int Cache)) = Some 1"
proof -
  have h: "1 \<le> max_size two_entries" "cache two_entries ''c'' = None"
    "curr_size two_entries = max_size two_entries" "lru two_entries = [1, 0]"
    "fresh two_entries = 2" "Len two_entries = 2"
    "elems two_entries 1 = Some \<lparr>key = ''b'', val = Some 2\<rparr>"
    by (simp_all add: two_entries_def Len_def)
  from Set_new_key[OF reachable_two_entries h(1,2), of "Some 3"] h(3)
  obtain c' where c': "Set ''c'' (Some 3) two_entries = Some c'"
    "lru c' = fresh two_entries # butlast (lru two_entries)"
    "elems c' = (elems two_entries)(fresh two_entries \<mapsto> \<lparr>key = ''c'', val = Some 3\<rparr>)"
    "Len c' = Len two_entries"
    by auto
  have n: "1 \<le> max_size (NewCache 2 :: int Cache)" "cache (NewCache 2 :: int Cache) ''a'' = None"
    "curr_size (NewCache 2 :: int Cache) \<noteq> max_size (NewCache 2 :: int Cache)"
    "lru (NewCache 2 :: int Cache) = []" "fresh (NewCache 2 :: int Cache) = 0"
    "Len (NewCache 2 :: int Cache) = 0"
    by (simp_all add: NewCache_def Len_def)
  from Set_new_key[OF reachable_new n(1,2), of "Some 1"] n(3)
  obtain d' where d': "Set ''a'' (Some 1) (NewCache 2 :: int Cache) = Some d'"
    "lru d' = fresh (NewCache 2 :: int Cache) # lru (NewCache 2 :: int Cache)"
    "Len d' = Len (NewCache 2 :: int Cache) + 1"
    by auto
  from c' d' h n reachable_two_entries show ?thesis
    by (simp add: Back_def lru_keys_def)
qed

theorem Set_new_key_counterexample:
  "curr_size (NewCache 0 :: int Cache) = max_size (NewCache 0 :: int Cache) \<and>
   cache (NewCache 0 :: int Cache) ''a'' = None \<and>
   lru (NewCache 0 :: int Cache) = [] \<and>
   Len (NewCache 0 :: int Cache) = 0 \<and>
   map_option Len (Set ''a'' (Some 1) (NewCache 0 :: int Cache)) = Some 1 \<and>
   map_option lru (Set ''a'' (Some 1) (NewCache 0 :: int Cache)) = Some [0]"
  by (simp add: NewCache_def Set_def removeLRU_def insertNew_def PushFront_def Len_def)



text \<open>
  C1, as the code has it: for every capacity of at least 1 passed to \<^verbatim>\<open>NewCache\<close> and
  every sequence of \<^verbatim>\<open>Set\<close> calls on the resulting cache, every call returns and
  \<^verbatim>\<open>Len() <= capacity\<close> holds after each of them: after the first \<open>n\<close> calls of the
  sequence, for every \<open>n\<close>.

  The claim was made of every capacity. \<^verbatim>\<open>NewCache(0)\<close> followed by one \<^verbatim>\<open>Set\<close> has
  \<^verbatim>\<open>Len() = 1\<close>, above its capacity.
\<close>

theorem capacity_invariant:
  "1 \<le> sz \<Longrightarrow> \<exists>c. run (set_calls (take n kvs)) (NewCache sz) = Some c \<and> Len c \<le> sz"
  using run_NewCache[of "set_calls (take n kvs)" sz]
  by (auto simp: cache_inv_def Len_def)

theorem capacity_invariant_witness:
  "(1::int) \<le> 2 \<and>
   map_option Len (run (set_calls (take 3 [(''a'', Some (1::int)), (''b'', Some 2), (''c'', Some 3)]))
     (NewCache 2)) = Some 2 \<and>
   map_option within_capacity
     (run (set_calls (take 3 [(''a'', Some (1::int)), (''b'', Some 2), (''c'', Some 3)]))
     (NewCache 2)) = Some True"
  using capacity_invariant[of 2 3 "[(''a'', Some (1::int)), (''b'', Some 2), (''c'', Some 3)]"]
  by (auto simp: set_calls_def NewCache_def Set_def insertNew_def PushFront_def
      removeLRU_def removeElement_def Back_def Remove_def Len_def within_capacity_def)

theorem capacity_invariant_counterexample:
  "map_option Len (run (set_calls [(''a'', Some (1::int))]) (NewCache 0)) = Some 1 \<and>
   map_option max_size (run (set_calls [(''a'', Some (1::int))]) (NewCache 0)) = Some 0 \<and>
   map_option within_capacity (run (set_calls [(''a'', Some (1::int))]) (NewCache 0)) = Some False"
  by (simp add: set_calls_def NewCache_def Set_def insertNew_def PushFront_def
      removeLRU_def Len_def within_capacity_def)

text \<open>
  C2, as the code has it: \<^verbatim>\<open>NewCache\<close> with a capacity of 0 or less rejects nothing and
  does not disable the cache. It returns an empty cache on which no sequence of calls
  panics and which keeps one entry, the last one set: \<^verbatim>\<open>Len()\<close> stays between 0 and 1,
  and after any sequence of calls followed by \<^verbatim>\<open>Set(k, v)\<close>, \<^verbatim>\<open>Len()\<close> is 1, above
  the capacity, and \<^verbatim>\<open>Get(k)\<close> returns \<open>v\<close> and \<^verbatim>\<open>true\<close>.

  The claim had such a cache rejected or disabled and its size never above the capacity.
\<close>

theorem nonpositive_capacity:
  fixes v :: "'v iface"
  assumes "sz \<le> 0"
  shows "\<exists>c0 c. run xs (NewCache sz) = Some c0 \<and> 0 \<le> Len c0 \<and> Len c0 \<le> 1 \<and>
           Set k v c0 = Some c \<and> Len c = 1 \<and> \<not> within_capacity c \<and>
           Get_result k c = Some (v, True)"
proof -
  from run_NewCache[of xs sz] obtain c0 :: "'v Cache" where
    c0: "run xs (NewCache sz) = Some c0" "cache_inv c0" "max_size c0 = sz" by blast
  from cache_inv_Set[OF c0(2), of k v] obtain c where
    c: "Set k v c0 = Some c" "cache_inv c" "max_size c = max_size c0" by blast
  from c(1) have g: "Get_result k c = Some (v, True)" by (rule Set_then_Get)
  then obtain a where "cache c k = Some a"
    by (auto simp: Get_result_def Get_def split: option.splits)
  with c(2) have "1 \<le> curr_size c" by (simp add: cache_inv_def index_inv_present_size)
  moreover have "curr_size c \<le> 1" using c(2,3) c0(3) assms by (simp add: cache_inv_def)
  moreover have "0 \<le> curr_size c0" "curr_size c0 \<le> 1"
    using c0(2,3) assms by (simp_all add: cache_inv_def index_inv_nonneg)
  ultimately show ?thesis using c0 c g assms
    by (auto simp: Len_def within_capacity_def)
qed

theorem nonpositive_capacity_witness:
  "(0::int) \<le> 0 \<and>
   Option.bind (run [CallSet ''a'' (Some 1), CallGet ''a''] (NewCache 0)) (Set ''b'' (Some (2::int)))
     = Some \<lparr>max_size = 0, curr_size = 1, cache = [''b'' \<mapsto> 1], lru = [1],
             elems = [0 \<mapsto> \<lparr>key = ''a'', val = Some 1\<rparr>, 1 \<mapsto> \<lparr>key = ''b'', val = Some 2\<rparr>],
             fresh = 2\<rparr>"
  using nonpositive_capacity[of 0 "[CallSet ''a'' (Some 1), CallGet ''a'']" "''b''" "Some (2::int)"]
  by (auto simp: NewCache_def Set_def Get_def insertNew_def PushFront_def MoveToFront_def
      Front_def removeLRU_def removeElement_def Back_def Remove_def)

theorem nonpositive_capacity_counterexample:
  "max_size (NewCache (- 1) :: int Cache) = - 1 \<and>
   map_option Len (Set ''a'' (Some 1) (NewCache (- 1) :: int Cache)) = Some 1 \<and>
   map_option within_capacity (Set ''a'' (Some 1) (NewCache (- 1) :: int Cache)) = Some False \<and>
   Option.bind (Set ''a'' (Some 1) (NewCache (- 1) :: int Cache)) (Get_result ''a'')
     = Some (Some 1, True)"
  by (simp add: NewCache_def Set_def insertNew_def PushFront_def
      removeLRU_def Len_def within_capacity_def Get_result_def Get_def)

text \<open>
  C10: for every capacity, zero and negative ones too, every sequence of \<^verbatim>\<open>Set\<close>,
  \<^verbatim>\<open>Get\<close>, \<^verbatim>\<open>Len\<close> and \<^verbatim>\<open>Clear\<close> calls returns (no call panics) and leaves a size
  that is not negative; \<^verbatim>\<open>removeLRU\<close> on an empty cache changes nothing; and when the
  capacity is 0 or less the cache holds at most one entry: a \<^verbatim>\<open>Set\<close> of a new key leaves
  the new entry as the only one, whatever was there before.
\<close>

theorem total_and_nonnegative:
  fixes sz :: int
  shows "\<exists>c. run xs (NewCache sz) = Some c \<and> 0 \<le> Len c \<and>
           (Len c = 0 \<longrightarrow> removeLRU c = Some c) \<and>
           (sz \<le> 0 \<longrightarrow>
              Len c \<le> 1 \<and> length (lru c) \<le> 1 \<and> card (dom (cache c)) \<le> 1 \<and>
              (\<forall>k v. cache c k = None \<longrightarrow>
                 (\<exists>c'. Set k v c = Some c' \<and> lru c' = [fresh c] \<and> lru_keys c' = [k] \<and>
                       dom (cache c') = {k} \<and> Len c' = 1)))"
proof -
  from run_NewCache[of xs sz] obtain c :: "'a Cache" where
    c: "run xs (NewCache sz) = Some c" "cache_inv c" "max_size c = sz" by blast
  then have inv: "index_inv c" and b: "curr_size c \<le> max 1 sz"
    by (simp_all add: cache_inv_def)
  have len: "curr_size c = int (length (lru c))" using inv by (simp add: index_inv_def)
  have nonneg: "0 \<le> Len c" using len by (simp add: Len_def)
  have guard: "Len c = 0 \<longrightarrow> removeLRU c = Some c" by (simp add: Len_def removeLRU_def)
  have small: "Len c \<le> 1 \<and> length (lru c) \<le> 1 \<and> card (dom (cache c)) \<le> 1 \<and>
              (\<forall>k v. cache c k = None \<longrightarrow>
                 (\<exists>c'. Set k v c = Some c' \<and> lru c' = [fresh c] \<and> lru_keys c' = [k] \<and>
                       dom (cache c') = {k} \<and> Len c' = 1))" if sz: "sz \<le> 0"
  proof (intro conjI allI impI)
    from b sz show l1: "Len c \<le> 1" by (simp add: Len_def)
    with len show l2: "length (lru c) \<le> 1" by (simp add: Len_def)
    from index_inv_keys(4)[OF inv] l1 show "card (dom (cache c)) \<le> 1" by (simp add: Len_def)
    fix k and v :: "'a iface" assume miss: "cache c k = None"
    from Set_new_key_result[OF inv miss, of v] obtain c' where
      c': "Set k v c = Some c'" "elems c' = (elems c)(fresh c \<mapsto> \<lparr>key = k, val = v\<rparr>)"
        "if max_size c \<le> curr_size c \<and> curr_size c \<noteq> 0
            then \<exists>kv. lru c \<noteq> [] \<and> elems c (last (lru c)) = Some kv \<and>
                   cache c (key kv) = Some (last (lru c)) \<and>
                   lru c' = fresh c # butlast (lru c) \<and>
                   cache c' = (cache c)(key kv := None, k \<mapsto> fresh c) \<and>
                   curr_size c' = curr_size c
            else lru c' = fresh c # lru c \<and> cache c' = (cache c)(k \<mapsto> fresh c) \<and>
                 curr_size c' = curr_size c + 1"
      by blast
    have lru': "lru c' = [fresh c]"
    proof (cases "curr_size c = 0")
      case True
      with len c'(3) show ?thesis by simp
    next
      case False
      with len l2 have "butlast (lru c) = []" by (cases "lru c") auto
      with False c'(3) c(3) sz len show ?thesis by (auto split: if_splits)
    qed
    from cache_inv_Set[OF c(2), of k v] c'(1) have inv': "index_inv c'"
      by (simp add: cache_inv_def)
    have keys: "lru_keys c' = [k]" using lru' c'(2) by (simp add: lru_keys_def)
    have "dom (cache c') = {k}" using index_inv_keys(1)[OF inv'] keys by simp
    moreover have "Len c' = 1" using inv' lru' by (simp add: index_inv_def Len_def)
    ultimately show "\<exists>c'. Set k v c = Some c' \<and> lru c' = [fresh c] \<and> lru_keys c' = [k] \<and>
                       dom (cache c') = {k} \<and> Len c' = 1"
      using c'(1) lru' keys by simp
  qed
  from c(1) nonneg guard small show ?thesis by blast
qed

theorem total_and_nonnegative_witness:
  "run mixed_calls (NewCache (- 2)) = Some one_entry \<and> 0 \<le> Len one_entry \<and>
   max_size one_entry \<le> 0 \<and> length (lru one_entry) \<le> 1 \<and>
   cache one_entry ''d'' = None \<and>
   map_option lru (Set ''d'' (Some 4) one_entry) = Some [3] \<and>
   map_option lru_keys (Set ''d'' (Some 4) one_entry) = Some [''d''] \<and>
   map_option Len (Set ''d'' (Some 4) one_entry) = Some 1"
proof -
  have r: "run mixed_calls (NewCache (- 2)) = Some one_entry"
    by (simp add: mixed_calls_def one_entry_def NewCache_def Set_def Get_def Clear_def
        insertNew_def PushFront_def MoveToFront_def Front_def removeLRU_def removeElement_def
        Back_def Remove_def eval_nat_numeral)
  have h: "cache one_entry ''d'' = None" "fresh one_entry = 3" "max_size one_entry \<le> 0"
    by (simp_all add: one_entry_def)
  have t: "0 \<le> Len one_entry \<and> length (lru one_entry) \<le> 1 \<and>
      (\<forall>k v. cache one_entry k = None \<longrightarrow>
         (\<exists>c'. Set k v one_entry = Some c' \<and> lru c' = [fresh one_entry] \<and>
               lru_keys c' = [k] \<and> Len c' = 1))"
    using total_and_nonnegative[of mixed_calls "- 2"] r by simp blast
  with h(1) obtain c' where "Set ''d'' (Some 4) one_entry = Some c'"
    "lru c' = [fresh one_entry]" "lru_keys c' = [''d'']" "Len c' = 1"
    by blast
  with t r h show ?thesis by simp
qed

end
